theory Spec2Isabelle
  imports Complex_Main
begin

section \<open>JavaScript values\<close>

text \<open>
  The paginator model of \<^verbatim>\<open>paginator-view.js\<close> (\<^verbatim>\<open>Y.PaginatorModel\<close>) stores its
  state in attributes of the YUI 3 attribute system. A caller may hand any JavaScript
  value to \<^verbatim>\<open>set\<close>; the primitive values that matter for the comparisons of the model
  are covered here (strings and objects are left out).

  A finite number is a rational. \<^verbatim>\<open>NaN\<close> and the two infinities are values of their
  own: they are what a malformed page request turns into, and \<^verbatim>\<open>Infinity\<close> is what a
  quotient beyond the range of a double becomes.
\<close>

datatype jsval = JNull | JUndefined | JBool bool | JNaN | JPosInf | JNegInf | JNum rat

datatype number = NaN | PosInf | NegInf | Fin rat

text \<open>The abstract operation ToNumber of the language, on the primitives above.\<close>

fun ToNumber :: "jsval \<Rightarrow> number" where
  "ToNumber JNull = Fin 0"
| "ToNumber JUndefined = NaN"
| "ToNumber (JBool b) = (if b then Fin 1 else Fin 0)"
| "ToNumber JNaN = NaN"
| "ToNumber JPosInf = PosInf"
| "ToNumber JNegInf = NegInf"
| "ToNumber (JNum r) = Fin r"

text \<open>A number as a value.\<close>

fun of_number :: "number \<Rightarrow> jsval" where
  "of_number NaN = JNaN"
| "of_number PosInf = JPosInf"
| "of_number NegInf = JNegInf"
| "of_number (Fin r) = JNum r"

text \<open>\<^verbatim>\<open>a < b\<close> on numbers: false as soon as one side is \<^verbatim>\<open>NaN\<close>.\<close>

fun js_less :: "number \<Rightarrow> number \<Rightarrow> bool" where
  "js_less NaN b = False"
| "js_less PosInf b = False"
| "js_less NegInf b = (case b of NaN \<Rightarrow> False | NegInf \<Rightarrow> False | _ \<Rightarrow> True)"
| "js_less (Fin x) b = (case b of NaN \<Rightarrow> False | NegInf \<Rightarrow> False | PosInf \<Rightarrow> True | Fin y \<Rightarrow> x < y)"

text \<open>The boolean reading of a value: \<^verbatim>\<open>null\<close>, \<^verbatim>\<open>undefined\<close>, \<^verbatim>\<open>NaN\<close> and 0 are falsy.\<close>

fun js_truthy :: "jsval \<Rightarrow> bool" where
  "js_truthy JNull = False"
| "js_truthy JUndefined = False"
| "js_truthy (JBool b) = b"
| "js_truthy JNaN = False"
| "js_truthy JPosInf = True"
| "js_truthy JNegInf = True"
| "js_truthy (JNum r) = (r \<noteq> 0)"

text \<open>
  \<^verbatim>\<open>Y.Lang.isNumber\<close>, the validator of every attribute of the model: the value has
  type number and is finite.
\<close>

fun isNumber :: "jsval \<Rightarrow> bool" where
  "isNumber (JNum r) = True"
| "isNumber v = False"

text \<open>
  An attribute of the model holds \<^verbatim>\<open>null\<close> (its default) or a value that passed
  \<^verbatim>\<open>Y.Lang.isNumber\<close>, so a stored value is \<open>None\<close> or \<open>Some\<close> finite number.
  \<open>truthy\<close> is the boolean reading of such a value (\<^verbatim>\<open>null\<close> and \<open>0\<close> are falsy),
  \<open>num_of\<close> its numeric reading (\<^verbatim>\<open>null\<close> counts as \<open>0\<close>).
\<close>

fun truthy :: "rat option \<Rightarrow> bool" where
  "truthy None = False"
| "truthy (Some r) = (r \<noteq> 0)"

fun num_of :: "rat option \<Rightarrow> rat" where
  "num_of None = 0"
| "num_of (Some r) = r"

section \<open>Division in double precision\<close>

text \<open>
  The quotient \<^verbatim>\<open>ni / nipp\<close> of \<^verbatim>\<open>_recalcPagnParams\<close> is a double: the exact quotient
  rounded to the nearest value with a 53-bit significand, ties to the even significand,
  and \<^verbatim>\<open>Infinity\<close> beyond the range.

  \<open>expo x\<close> is the binary exponent of a positive \<open>x\<close>: \<open>2 powi expo x \<le> x < 2 powi (expo x + 1)\<close>.
\<close>

function expo :: "rat \<Rightarrow> int" where
  "expo x = (if x \<le> 0 then 0
             else if 2 \<le> x then expo (x / 2) + 1
             else if x < 1 then expo (2 * x) - 1
             else 0)"
  by pat_completeness auto
termination
proof (relation "measure (\<lambda>x. nat \<lfloor>x\<rfloor> + 2 * nat \<lceil>1 / x\<rceil>)")
  show "wf (measure (\<lambda>x. nat \<lfloor>x\<rfloor> + 2 * nat \<lceil>1 / x\<rceil>))" by simp
next
  fix x :: rat
  assume a: "\<not> x \<le> 0" "2 \<le> x"
  have c1: "\<lceil>1 / x\<rceil> = 1" using a by (simp add: ceiling_eq_iff)
  have c2: "\<lceil>1 / (x / 2)\<rceil> = 1" using a by (simp add: ceiling_eq_iff)
  have "x / 2 \<le> x - 1" using a by simp
  then have "\<lfloor>x / 2\<rfloor> \<le> \<lfloor>x - 1\<rfloor>" by (rule floor_mono)
  then have "\<lfloor>x / 2\<rfloor> < \<lfloor>x\<rfloor>" by simp
  moreover have "0 < \<lfloor>x\<rfloor>" using a by simp
  ultimately show "(x / 2, x) \<in> measure (\<lambda>x. nat \<lfloor>x\<rfloor> + 2 * nat \<lceil>1 / x\<rceil>)"
    using c1 c2 by simp
next
  fix x :: rat
  assume a: "\<not> x \<le> 0" "\<not> 2 \<le> x" "x < 1"
  define y where "y = 1 / x"
  have y: "1 < y" using a by (simp add: y_def)
  have f0: "\<lfloor>x\<rfloor> = 0" using a by (simp add: floor_eq_iff)
  have f1: "\<lfloor>2 * x\<rfloor> \<le> 1" using a by (simp add: floor_le_iff)
  have f2: "0 \<le> \<lfloor>2 * x\<rfloor>" using a by simp
  have "1 < \<lceil>y\<rceil>" using y by (simp only: less_ceiling_iff of_int_1)
  then have c: "2 \<le> \<lceil>y\<rceil>" by linarith
  have h: "y / 2 \<le> of_int (\<lceil>y\<rceil> - 1)"
  proof -
    define c where "c = \<lceil>y\<rceil>"
    have yc: "y \<le> of_int c" by (simp add: c_def)
    have "c \<le> 2 * c - 2" using c by (simp add: c_def)
    then have "(of_int c :: rat) \<le> of_int (2 * c - 2)" by (simp only: of_int_le_iff)
    then have "(of_int c :: rat) \<le> 2 * of_int c - 2" by simp
    with yc have "y \<le> 2 * of_int c - 2" by linarith
    then have "y / 2 \<le> of_int c - 1" by linarith
    then show ?thesis by (simp add: c_def)
  qed
  then have c3: "\<lceil>y / 2\<rceil> \<le> \<lceil>y\<rceil> - 1" by (simp only: ceiling_le_iff)
  have e: "1 / (2 * x) = y / 2" by (simp add: y_def)
  have e1: "\<lceil>1 / (2 * x)\<rceil> = \<lceil>y / 2\<rceil>" by (simp only: e)
  have e2: "\<lceil>1 / x\<rceil> = \<lceil>y\<rceil>" by (simp only: y_def)
  have c4: "\<lceil>1 / (2 * x)\<rceil> \<le> \<lceil>1 / x\<rceil> - 1" using c3 e1 e2 by linarith
  have c5: "2 \<le> \<lceil>1 / x\<rceil>" using c e2 by linarith
  show "(2 * x, x) \<in> measure (\<lambda>x. nat \<lfloor>x\<rfloor> + 2 * nat \<lceil>1 / x\<rceil>)"
    using f0 f1 f2 c4 c5 by simp linarith
qed

declare expo.simps [simp del]

text \<open>Rounding to the nearest integer, ties to the even one.\<close>

definition round_even :: "rat \<Rightarrow> int" where
  "round_even y =
     (let f = \<lfloor>y\<rfloor>; d = y - of_int f
      in if d < 1 / 2 then f else if 1 / 2 < d then f + 1 else if even f then f else f + 1)"

text \<open>
  A positive \<open>x\<close> rounded to 53 significant bits (to a multiple of \<open>2 powi (- 1074)\<close> in
  the subnormal range), the exponent unbounded above.
\<close>

definition fl :: "rat \<Rightarrow> rat" where
  "fl x = (let u = 2 powi (max (expo x - 52) (- 1074)) in of_int (round_even (x / u)) * u)"

text \<open>
  The double nearest to \<open>x\<close>; a magnitude that rounds to \<open>2 ^ 1024\<close> or more (its
  exponent reaches 1024) overflows.
\<close>

definition round_double :: "rat \<Rightarrow> number" where
  "round_double x =
     (if x = 0 then Fin 0
      else (let y = fl \<bar>x\<bar>
            in if 1024 \<le> expo y then (if 0 < x then PosInf else NegInf)
               else Fin (if 0 < x then y else - y)))"

text \<open>\<^verbatim>\<open>a / b\<close> on finite numbers.\<close>

definition js_div :: "rat \<Rightarrow> rat \<Rightarrow> number" where
  "js_div a b =
     (if b = 0 then (if a = 0 then NaN else if 0 < a then PosInf else NegInf)
      else round_double (a / b))"

text \<open>\<^verbatim>\<open>Math.floor\<close>, and \<^verbatim>\<open>np++\<close> (the sum is a double again).\<close>

fun math_floor :: "number \<Rightarrow> number" where
  "math_floor (Fin x) = Fin (of_int \<lfloor>x\<rfloor>)"
| "math_floor n = n"

fun js_incr :: "number \<Rightarrow> number" where
  "js_incr (Fin x) = round_double (x + 1)"
| "js_incr n = n"

text \<open>
  \<^verbatim>\<open>a % b\<close> for a non-zero \<open>b\<close>: the remainder has the sign of \<open>a\<close>, and the language
  computes it without rounding.
\<close>

definition js_rem :: "rat \<Rightarrow> rat \<Rightarrow> rat" where
  "js_rem a b = a - b * of_int (if 0 \<le> a / b then \<lfloor>a / b\<rfloor> else \<lceil>a / b\<rceil>)"

section \<open>The paginator model\<close>

text \<open>
  The attributes \<^verbatim>\<open>totalItems\<close>, \<^verbatim>\<open>itemsPerPage\<close>, \<^verbatim>\<open>page\<close> (default 1, never
  \<^verbatim>\<open>null\<close>), \<^verbatim>\<open>lastPage\<close>, the property \<^verbatim>\<open>_npages\<close> behind the getter of
  \<^verbatim>\<open>totalPages\<close> (a plain property: \<^verbatim>\<open>null\<close> or the number computed last), and
  whether the listeners of \<^verbatim>\<open>initializer\<close> are attached (\<^verbatim>\<open>_subscr\<close> is an array of
  handles).
\<close>

record paginatorModel =
  totalItems :: "rat option"
  itemsPerPage :: "rat option"
  page :: rat
  lastPage :: "rat option"
  npages :: jsval
  subscr :: bool

text \<open>The getter of \<^verbatim>\<open>totalPages\<close>: \<^verbatim>\<open>return this._npages\<close>.\<close>

definition get_totalPages :: "paginatorModel \<Rightarrow> jsval" where
  "get_totalPages s = npages s"

text \<open>
  \<^verbatim>\<open>set\<close> of the attribute system, as the library documents it: the call fires the
  event \<^verbatim>\<open>nameChange\<close> with \<^verbatim>\<open>prevVal\<close> and \<^verbatim>\<open>newVal\<close>; the \<^verbatim>\<open>on\<close> subscribers
  run first and may call \<^verbatim>\<open>preventDefault\<close>; unless prevented, the default action
  stores the new value when the validator accepts it and it differs from the stored
  one; the \<^verbatim>\<open>after\<close> subscribers run only when a value was stored. The call returns the
  model itself and never throws.

  \<^verbatim>\<open>lastPage\<close> has no subscriber.
\<close>

fun set_lastPage :: "jsval \<Rightarrow> paginatorModel \<Rightarrow> paginatorModel" where
  "set_lastPage (JNum r) s = s\<lparr>lastPage := Some r\<rparr>"
| "set_lastPage v s = s"

text \<open>
  \<^verbatim>\<open>_changePage\<close>, the \<^verbatim>\<open>on\<close> subscriber of \<^verbatim>\<open>pageChange\<close>. The first component of
  the result tells whether \<^verbatim>\<open>e.preventDefault()\<close> was called.
\<close>

definition changePage :: "jsval \<Rightarrow> rat \<Rightarrow> paginatorModel \<Rightarrow> bool \<times> paginatorModel" where
  "changePage newPg prevVal s =
     (let validp = True;
          validp = (if js_less (ToNumber newPg) (Fin 1) \<or> \<not> js_truthy (get_totalPages s)
                       \<or> \<not> truthy (itemsPerPage s)
                    then False else validp);
          validp = (if js_truthy (get_totalPages s)
                       \<and> js_less (ToNumber (get_totalPages s)) (ToNumber newPg)
                    then False else validp)
      in if validp then (False, set_lastPage (JNum prevVal) s) else (True, s))"

text \<open>The default action of \<^verbatim>\<open>pageChange\<close>: validate, then store.\<close>

fun store_page :: "jsval \<Rightarrow> paginatorModel \<Rightarrow> paginatorModel" where
  "store_page (JNum r) s = s\<lparr>page := r\<rparr>"
| "store_page v s = s"

text \<open>\<^verbatim>\<open>set('page', v)\<close>.\<close>

definition set_page :: "jsval \<Rightarrow> paginatorModel \<Rightarrow> paginatorModel" where
  "set_page v s =
     (if subscr s
      then (case changePage v (page s) s of
              (prevented, s1) \<Rightarrow> if prevented then s1 else store_page v s1)
      else store_page v s)"

text \<open>
  \<^verbatim>\<open>_recalcPagnParams\<close>, with its boolean result. Inside the guard both values are
  positive numbers.
\<close>

definition recalcPagnParams :: "paginatorModel \<Rightarrow> bool \<times> paginatorModel" where
  "recalcPagnParams s =
     (let nipp = itemsPerPage s;
          ni = totalItems s
      in if truthy ni \<and> truthy nipp \<and> num_of ni > 0 \<and> num_of nipp > 0
         then (let np = math_floor (js_div (num_of ni) (num_of nipp));
                   np = (if js_rem (num_of ni) (num_of nipp) > 0 then js_incr np else np)
               in (True, set_page (JNum 1) (s\<lparr>npages := of_number np\<rparr>)))
         else (False, s))"

text \<open>
  \<^verbatim>\<open>set('totalItems', v)\<close> and \<^verbatim>\<open>set('itemsPerPage', v)\<close>: no \<^verbatim>\<open>on\<close> subscriber;
  \<^verbatim>\<open>_recalcPagnParams\<close> is the \<^verbatim>\<open>after\<close> subscriber once the initializer has run.
\<close>

definition set_totalItems :: "jsval \<Rightarrow> paginatorModel \<Rightarrow> paginatorModel" where
  "set_totalItems v s =
     (case v of
        JNum r \<Rightarrow>
          if totalItems s = Some r then s
          else (let s1 = s\<lparr>totalItems := Some r\<rparr>
                in if subscr s1 then snd (recalcPagnParams s1) else s1)
      | _ \<Rightarrow> s)"

definition set_itemsPerPage :: "jsval \<Rightarrow> paginatorModel \<Rightarrow> paginatorModel" where
  "set_itemsPerPage v s =
     (case v of
        JNum r \<Rightarrow>
          if itemsPerPage s = Some r then s
          else (let s1 = s\<lparr>itemsPerPage := Some r\<rparr>
                in if subscr s1 then snd (recalcPagnParams s1) else s1)
      | _ \<Rightarrow> s)"

text \<open>
  Construction: an initial value that the validator refuses leaves the attribute at its
  default \<^verbatim>\<open>null\<close>. \<^verbatim>\<open>initializer\<close> recalculates first and attaches the listeners
  afterwards.
\<close>

fun init_value :: "jsval \<Rightarrow> rat option" where
  "init_value (JNum r) = Some r"
| "init_value v = None"

definition initializer :: "paginatorModel \<Rightarrow> paginatorModel" where
  "initializer s = (snd (recalcPagnParams s))\<lparr>subscr := True\<rparr>"

definition construct :: "jsval \<Rightarrow> jsval \<Rightarrow> paginatorModel" where
  "construct ti ipp =
     initializer \<lparr>totalItems = init_value ti, itemsPerPage = init_value ipp, page = 1,
                  lastPage = None, npages = JNull, subscr = False\<rparr>"



text \<open>The states a caller can produce.\<close>

inductive reachable :: "paginatorModel \<Rightarrow> bool" where
  r_construct: "reachable (construct ti ipp)"
| r_totalItems: "reachable s \<Longrightarrow> reachable (set_totalItems v s)"
| r_itemsPerPage: "reachable s \<Longrightarrow> reachable (set_itemsPerPage v s)"
| r_page: "reachable s \<Longrightarrow> reachable (set_page v s)"

text \<open>
  The sizing inputs are complete when the guard of \<^verbatim>\<open>_recalcPagnParams\<close> holds: both
  are set and positive.
\<close>

definition complete :: "paginatorModel \<Rightarrow> bool" where
  "complete s \<longleftrightarrow> truthy (totalItems s) \<and> truthy (itemsPerPage s)
     \<and> 0 < num_of (totalItems s) \<and> 0 < num_of (itemsPerPage s)"

text \<open>The page count that \<^verbatim>\<open>_recalcPagnParams\<close> computes from positive \<open>a\<close> and \<open>b\<close>.\<close>

definition np_of :: "rat \<Rightarrow> rat \<Rightarrow> number" where
  "np_of a b =
     (let np = math_floor (js_div a b)
      in if js_rem a b > 0 then js_incr np else np)"

text \<open>
  The condition under which \<^verbatim>\<open>_changePage\<close> leaves \<^verbatim>\<open>validp\<close> true for a finite
  number \<open>n\<close>.
\<close>

definition page_ok :: "rat \<Rightarrow> paginatorModel \<Rightarrow> bool" where
  "page_ok n s \<longleftrightarrow> 1 \<le> n \<and> js_truthy (npages s) \<and> truthy (itemsPerPage s)
     \<and> \<not> js_less (ToNumber (npages s)) (Fin n)"

text \<open>
  The invariant of the reachable states: the listeners are attached; the page count is
  \<^verbatim>\<open>null\<close>, or \<^verbatim>\<open>Infinity\<close> with a page of at least 1, or a number of at least 1 that
  bounds the page; and complete sizing inputs fix the page count.
\<close>

definition inv :: "paginatorModel \<Rightarrow> bool" where
  "inv s \<longleftrightarrow> subscr s
     \<and> (npages s = JNull \<or> (npages s = JPosInf \<and> 1 \<le> page s)
         \<or> (\<exists>np. npages s = JNum np \<and> 1 \<le> np \<and> 1 \<le> page s \<and> page s \<le> np))
     \<and> (\<forall>a b. totalItems s = Some a \<longrightarrow> itemsPerPage s = Some b \<longrightarrow> 0 < a \<longrightarrow> 0 < b
            \<longrightarrow> npages s = of_number (np_of a b))"

section \<open>Rounding\<close>

lemma expo_bounds:
  "0 < x \<Longrightarrow> 2 powi (expo x) \<le> x \<and> x < 2 powi (expo x + 1)"
proof (induction x rule: expo.induct)
  case (1 x)
  show ?case
  proof (cases "2 \<le> x")
    case True
    then have e: "expo x = expo (x / 2) + 1" using 1(3) by (subst expo.simps) simp
    have ih: "2 powi (expo (x / 2)) \<le> x / 2 \<and> x / 2 < 2 powi (expo (x / 2) + 1)"
      using 1(1) [OF _ True] 1(3) by simp
    have p1: "(2::rat) powi (expo (x / 2) + 1) = 2 powi (expo (x / 2)) * 2"
      by (simp add: power_int_add)
    have p2: "(2::rat) powi (expo (x / 2) + 1 + 1) = 2 powi (expo (x / 2) + 1) * 2"
      by (simp add: power_int_add)
    show ?thesis using ih unfolding e p2 p1 by simp
  next
    case False
    show ?thesis
    proof (cases "x < 1")
      case True
      then have e: "expo x = expo (2 * x) - 1" using 1(3) False by (subst expo.simps) simp
      have ih: "2 powi (expo (2 * x)) \<le> 2 * x \<and> 2 * x < 2 powi (expo (2 * x) + 1)"
        using 1(2) [OF _ False True] 1(3) by simp
      have p1: "(2::rat) powi (expo (2 * x)) = 2 powi (expo (2 * x) - 1) * 2"
        using power_int_add [of "2::rat" "expo (2 * x) - 1" 1] by simp
      have p2: "(2::rat) powi (expo (2 * x) + 1) = 2 powi (expo (2 * x)) * 2"
        by (simp add: power_int_add)
      show ?thesis using ih unfolding e p2 by (simp add: p1)
    next
      case f2: False
      then have e: "expo x = 0" using 1(3) False by (subst expo.simps) simp
      show ?thesis using False f2 by (simp add: e)
    qed
  qed
qed

lemma round_even_lower: "of_int m \<le> y \<Longrightarrow> m \<le> round_even y"
proof -
  assume "of_int m \<le> y"
  then have "m \<le> \<lfloor>y\<rfloor>" by (simp add: le_floor_iff)
  then show ?thesis by (simp add: round_even_def Let_def)
qed

lemma round_even_upper: "y + 1 / 2 < of_int M \<Longrightarrow> round_even y < M"
proof -
  assume h: "y + 1 / 2 < of_int M"
  have f: "of_int \<lfloor>y\<rfloor> \<le> y" by simp
  have a: "\<lfloor>y\<rfloor> < M"
  proof -
    have "of_int \<lfloor>y\<rfloor> < (of_int M :: rat)" using h f by linarith
    then show ?thesis by (simp only: of_int_less_iff)
  qed
  have b: "1 / 2 \<le> y - of_int \<lfloor>y\<rfloor> \<Longrightarrow> \<lfloor>y\<rfloor> + 1 < M"
  proof -
    assume "1 / 2 \<le> y - of_int \<lfloor>y\<rfloor>"
    then have "of_int \<lfloor>y\<rfloor> + 1 < (of_int M :: rat)" using h by linarith
    then have "of_int (\<lfloor>y\<rfloor> + 1) < (of_int M :: rat)" by simp
    then show ?thesis by (simp only: of_int_less_iff)
  qed
  show ?thesis using a b by (auto simp: round_even_def Let_def)
qed

lemma round_even_of_int: "round_even (of_int z) = z"
  by (simp add: round_even_def)

lemma round_even_nonneg: "0 \<le> y \<Longrightarrow> 0 \<le> round_even y"
  using round_even_lower [of 0 y] by simp

lemma fl_normal:
  assumes "0 < x" "- 1022 \<le> expo x"
  shows "fl x = of_int (round_even (x / 2 powi (expo x - 52))) * 2 powi (expo x - 52)"
    and "2 ^ 52 \<le> x / 2 powi (expo x - 52)"
    and "x / 2 powi (expo x - 52) < 2 ^ 53"
    and "2 ^ 52 * 2 powi (expo x - 52) = (2::rat) powi (expo x)"
proof -
  let ?u = "(2::rat) powi (expo x - 52)"
  have m: "max (expo x - 52) (- 1074) = expo x - 52" using assms(2) by simp
  show "fl x = of_int (round_even (x / ?u)) * ?u" by (simp add: fl_def m Let_def)
  have u: "0 < ?u" by simp
  have d: "?u = 2 powi (expo x) / 2 ^ 52"
    using power_int_diff [of "2::rat" "expo x" 52] by simp
  show p: "2 ^ 52 * ?u = (2::rat) powi (expo x)" by (simp add: d)
  have b: "2 powi (expo x) \<le> x" "x < 2 powi (expo x + 1)"
    using expo_bounds [OF assms(1)] by simp_all
  have q: "(2::rat) powi (expo x + 1) = 2 powi (expo x) * 2" by (simp add: power_int_add)
  have "2 ^ 52 * ?u \<le> x" using b(1) p by simp
  then show "2 ^ 52 \<le> x / ?u" using u by (simp add: pos_le_divide_eq)
  have "x < 2 ^ 53 * ?u" using b(2) q p by simp
  then show "x / ?u < 2 ^ 53" using u by (simp add: pos_divide_less_eq)
qed

lemma fl_nonneg: "0 < x \<Longrightarrow> 0 \<le> fl x"
proof -
  assume "0 < x"
  let ?u = "(2::rat) powi (max (expo x - 52) (- 1074))"
  have u: "0 < ?u" by simp
  then have "0 \<le> x / ?u" using \<open>0 < x\<close> by simp
  then have "0 \<le> round_even (x / ?u)" by (rule round_even_nonneg)
  then have "(0::rat) \<le> of_int (round_even (x / ?u))" by simp
  then have "0 \<le> of_int (round_even (x / ?u)) * ?u" using u by simp
  then show ?thesis by (simp add: fl_def Let_def)
qed

lemma expo_nonneg: "1 \<le> x \<Longrightarrow> 0 \<le> expo x"
proof (rule ccontr)
  assume x: "1 \<le> x" and "\<not> 0 \<le> expo x"
  then have "expo x + 1 \<le> 0" by simp
  then have "(2::rat) powi (expo x + 1) \<le> 2 powi 0" by (intro power_int_increasing) simp_all
  moreover have "x < 2 powi (expo x + 1)" using expo_bounds [of x] x by simp
  ultimately show False using x by simp
qed

lemma fl_lower:
  assumes "0 < x" "- 1022 \<le> expo x"
  shows "2 powi (expo x) \<le> fl x"
proof -
  let ?u = "(2::rat) powi (expo x - 52)"
  note n = fl_normal [OF assms]
  have "of_int (2 ^ 52) \<le> x / ?u" using n(2) by simp
  then have "2 ^ 52 \<le> round_even (x / ?u)" by (rule round_even_lower)
  then have "(of_int (2 ^ 52) :: rat) \<le> of_int (round_even (x / ?u))" by (simp only: of_int_le_iff)
  then have "(2 ^ 52 :: rat) \<le> of_int (round_even (x / ?u))" by simp
  then have s: "2 ^ 52 * ?u \<le> of_int (round_even (x / ?u)) * ?u" by (intro mult_right_mono) simp_all
  have "2 powi (expo x) = 2 ^ 52 * ?u" using n(4) by (rule sym)
  also have "\<dots> \<le> of_int (round_even (x / ?u)) * ?u" by (rule s)
  also have "\<dots> = fl x" using n(1) by (rule sym)
  finally show ?thesis .
qed

lemma fl_ge_one: "1 \<le> x \<Longrightarrow> 1 \<le> fl x"
proof -
  assume x: "1 \<le> x"
  then have e: "0 \<le> expo x" by (rule expo_nonneg)
  have p: "0 < x" "- 1022 \<le> expo x" using x e by simp_all
  have "2 powi (expo x) \<le> fl x" using p by (rule fl_lower)
  moreover have "(2::rat) powi 0 \<le> 2 powi (expo x)" using e by (intro power_int_increasing) simp_all
  ultimately show ?thesis by simp
qed

lemma round_double_ge_one:
  assumes "1 \<le> x"
  shows "round_double x = PosInf \<or> (\<exists>r. round_double x = Fin r \<and> 1 \<le> r)"
proof -
  have a: "\<bar>x\<bar> = x" "0 < x" "x \<noteq> 0" using assms by simp_all
  show ?thesis using fl_ge_one [OF assms] a by (simp add: round_double_def Let_def)
qed

lemma powi_less_imp_less: "(2::rat) powi i < 2 powi j \<Longrightarrow> i < j"
proof (rule ccontr)
  assume h: "(2::rat) powi i < 2 powi j" and "\<not> i < j"
  then have "j \<le> i" by simp
  then have "(2::rat) powi j \<le> 2 powi i" by (intro power_int_increasing) simp_all
  with h show False by simp
qed

lemma powi_scale:
  assumes "e \<le> 52"
  shows "(2::rat) powi (e - 52) = 1 / 2 ^ nat (52 - e)"
proof -
  have "e - 52 = - int (nat (52 - e))" using assms by simp
  then have "(2::rat) powi (e - 52) = 2 powi (- int (nat (52 - e)))" by simp
  also have "\<dots> = 1 / 2 powi (int (nat (52 - e)))" by (rule power_int_minus_divide)
  also have "\<dots> = 1 / 2 ^ nat (52 - e)" by (simp only: power_int_of_nat)
  finally show ?thesis .
qed

lemma fl_between:
  assumes x: "0 < x" and lo: "- 1022 \<le> expo x" and hi: "expo x \<le> 52"
    and k: "of_int k \<le> x" and K: "x + 2 powi (expo x - 52) / 2 < of_int K"
  shows "of_int k \<le> fl x \<and> fl x < of_int K"
proof -
  define m where "m = nat (52 - expo x)"
  define P :: rat where "P = 2 ^ m"
  have P: "0 < P" by (simp add: P_def)
  have u: "(2::rat) powi (expo x - 52) = 1 / P" using powi_scale [OF hi] by (simp add: m_def P_def)
  define n where "n = round_even (x * P)"
  have f: "fl x = of_int n / P" using fl_normal(1) [OF x lo] by (simp add: u n_def)
  have Pi: "P = of_int (2 ^ m)" by (simp add: P_def)
  have "of_int k * P \<le> x * P" using k P by simp
  then have "of_int (k * 2 ^ m) \<le> x * P" by (simp add: Pi)
  then have "k * 2 ^ m \<le> n" unfolding n_def by (rule round_even_lower)
  then have "(of_int (k * 2 ^ m) :: rat) \<le> of_int n" by (simp only: of_int_le_iff)
  then have "of_int k * P \<le> of_int n" by (simp add: Pi)
  then have a: "of_int k \<le> of_int n / P" using P by (simp add: pos_le_divide_eq)
  have "x + 1 / P / 2 < of_int K" using K by (simp only: u)
  then have "(x + 1 / P / 2) * P < of_int K * P" using P by (simp only: mult_strict_right_mono)
  moreover have "(x + 1 / P / 2) * P = x * P + 1 / 2" using P by (simp add: algebra_simps)
  ultimately have "x * P + 1 / 2 < of_int K * P" by simp
  then have "x * P + 1 / 2 < of_int (K * 2 ^ m)" by (simp add: Pi)
  then have "n < K * 2 ^ m" unfolding n_def by (rule round_even_upper)
  then have "(of_int n :: rat) < of_int (K * 2 ^ m)" by (simp only: of_int_less_iff)
  then have "of_int n < of_int K * P" by (simp add: Pi)
  then have b: "of_int n / P < of_int K" using P by (simp add: pos_divide_less_eq)
  show ?thesis using a b f by simp
qed

lemma fl_of_int:
  assumes "0 < n" "n < 2 ^ 53"
  shows "fl (of_int n) = of_int n"
proof -
  let ?x = "of_int n :: rat"
  have x: "0 < ?x" "1 \<le> ?x" using assms by simp_all
  have lo: "- 1022 \<le> expo ?x" using expo_nonneg [OF x(2)] by simp
  have "?x < of_int (2 ^ 53)" using assms(2) by (simp only: of_int_less_iff)
  then have "?x < 2 powi 53" by simp
  moreover have "2 powi (expo ?x) \<le> ?x" using expo_bounds [OF x(1)] by simp
  ultimately have "(2::rat) powi (expo ?x) < 2 powi 53" by simp
  then have "expo ?x < 53" by (rule powi_less_imp_less)
  then have hi: "expo ?x \<le> 52" by simp
  define m where "m = nat (52 - expo ?x)"
  have u: "(2::rat) powi (expo ?x - 52) = 1 / 2 ^ m" using powi_scale [OF hi] by (simp add: m_def)
  have "?x / (1 / 2 ^ m) = of_int (n * 2 ^ m)" by simp
  then have "round_even (?x / (1 / 2 ^ m)) = n * 2 ^ m" by (simp only: round_even_of_int)
  then show ?thesis using fl_normal(1) [OF x(1) lo] by (simp add: u)
qed

lemma fl_safe:
  assumes a: "0 < a" "a < 2 ^ 53" and b: "0 < b" "b < 2 ^ 53"
  shows "\<lfloor>fl (of_int a / of_int b)\<rfloor> = \<lfloor>of_int a / of_int b :: rat\<rfloor>
       \<and> fl (of_int a / of_int b) < 2 ^ 53"
proof -
  define x :: rat where "x = of_int a / of_int b"
  define A :: rat where "A = of_int a"
  define B :: rat where "B = of_int b"
  define k where "k = \<lfloor>x\<rfloor>"
  have A: "0 < A" by (simp add: A_def a)
  have B: "0 < B" "1 \<le> B" using b by (simp_all add: B_def)
  have xAB: "x = A / B" by (simp add: x_def A_def B_def)
  have x: "0 < x" using A B by (simp add: xAB)
  have A53: "A < 2 ^ 53"
  proof -
    have "A < of_int (2 ^ 53)" unfolding A_def using a(2) by (simp only: of_int_less_iff)
    then show ?thesis by simp
  qed
  have B53: "B < 2 ^ 53"
  proof -
    have "B < of_int (2 ^ 53)" unfolding B_def using b(2) by (simp only: of_int_less_iff)
    then show ?thesis by simp
  qed
  have xA: "x \<le> A" using A B by (simp add: xAB pos_divide_le_eq mult_le_cancel_left1)
  note eb = expo_bounds [OF x]
  have "(2::rat) powi (expo x) < 2 powi 53" using eb xA A53 by simp
  then have "expo x < 53" by (rule powi_less_imp_less)
  then have hi: "expo x \<le> 52" by simp
  have "1 / 2 ^ 53 < 1 / B" using B B53 by (simp add: frac_less2)
  also have "\<dots> \<le> x"
  proof -
    have "1 \<le> A" unfolding A_def using a(1) by simp
    then show ?thesis using B by (simp add: xAB divide_right_mono)
  qed
  finally have "(1::rat) / 2 ^ 53 < x" .
  moreover have "(2::rat) powi (- 53) = 1 / 2 ^ 53"
    using power_int_minus_divide [of "2::rat" 53] by simp
  ultimately have "(2::rat) powi (- 53) < 2 powi (expo x + 1)" using eb by simp
  then have "- 53 < expo x + 1" by (rule powi_less_imp_less)
  then have lo: "- 1022 \<le> expo x" by simp
  define u :: rat where "u = 2 powi (expo x - 52)"
  have u: "0 < u" by (simp add: u_def)
  note n = fl_normal [OF x lo]
  have "2 ^ 52 * u \<le> x" using n(4) eb by (simp add: u_def)
  then have "2 ^ 52 * u * B \<le> A" using B by (simp add: xAB pos_le_divide_eq)
  moreover define w where "w = u * B"
  ultimately have "2 ^ 52 * w \<le> A" by (simp add: mult.assoc)
  then have "w < 2" using A53 by simp
  then have uB: "u * B < 2" by (simp add: w_def)
  have k1: "of_int k \<le> x" by (simp add: k_def)
  have "x < of_int \<lfloor>x\<rfloor> + 1" by linarith
  then have "x < of_int (k + 1)" by (simp add: k_def)
  then have "A < of_int (k + 1) * B" using B by (simp add: xAB pos_divide_less_eq)
  then have "(of_int a :: rat) < of_int ((k + 1) * b)" by (simp add: A_def B_def)
  then have "a < (k + 1) * b" by (simp only: of_int_less_iff)
  then have "a + 1 \<le> (k + 1) * b" by simp
  then have "(of_int (a + 1) :: rat) \<le> of_int ((k + 1) * b)" by (simp only: of_int_le_iff)
  then have "A + 1 \<le> of_int (k + 1) * B" by (simp add: A_def B_def)
  then have "(A + 1) / B \<le> of_int (k + 1)" using B by (simp add: pos_divide_le_eq)
  then have g: "x + 1 / B \<le> of_int (k + 1)" by (simp add: xAB add_divide_distrib)
  have "u / 2 < 1 / B"
  proof -
    have "u * B / 2 < 1" using uB by simp
    then have "u / 2 * B < 1" by simp
    then show ?thesis using B by (simp add: pos_less_divide_eq)
  qed
  with g have K: "x + 2 powi (expo x - 52) / 2 < of_int (k + 1)" by (simp add: u_def)
  from fl_between [OF x lo hi k1 K] have r: "of_int k \<le> fl x" "fl x < of_int (k + 1)" by simp_all
  then have "\<lfloor>fl x\<rfloor> = k" by (simp add: floor_eq_iff)
  moreover have "fl x < 2 ^ 53"
  proof -
    have "of_int k \<le> A" using k1 xA by simp
    then have "(of_int k :: rat) < of_int (2 ^ 53)" using A53 by simp
    then have "k < 2 ^ 53" by (simp only: of_int_less_iff)
    then have "k + 1 \<le> 2 ^ 53" by simp
    then have "(of_int (k + 1) :: rat) \<le> of_int (2 ^ 53)" by (simp only: of_int_le_iff)
    then show ?thesis using r(2) by simp
  qed
  ultimately show ?thesis by (simp add: x_def k_def)
qed

section \<open>Arithmetic of the page count\<close>

lemma rem_pos_iff:
  assumes "0 < a" "0 < b"
  shows "0 < js_rem a b \<longleftrightarrow> a / b \<noteq> of_int \<lfloor>a / b\<rfloor>"
proof -
  have q: "0 \<le> a / b" using assms by simp
  have r: "js_rem a b = b * (a / b - of_int \<lfloor>a / b\<rfloor>)"
    using assms q by (simp add: js_rem_def algebra_simps)
  have "of_int \<lfloor>a / b\<rfloor> \<le> a / b" by simp
  then have "0 < a / b - of_int \<lfloor>a / b\<rfloor> \<longleftrightarrow> a / b \<noteq> of_int \<lfloor>a / b\<rfloor>" by linarith
  then show ?thesis using assms r by (simp add: zero_less_mult_iff)
qed

lemma ceiling_floor_rem:
  assumes "0 < a" "0 < b"
  shows "\<lceil>a / b\<rceil> = \<lfloor>a / b\<rfloor> + (if 0 < js_rem a b then 1 else 0)"
  using rem_pos_iff [OF assms] by (simp add: ceiling_altdef)

lemma round_double_pos:
  assumes "0 < x"
  shows "round_double x = PosInf \<or> (\<exists>r. round_double x = Fin r \<and> r = fl x)"
  using assms by (simp add: round_double_def Let_def)

lemma overflow_iff:
  assumes "0 < y"
  shows "1024 \<le> expo y \<longleftrightarrow> 2 ^ 1024 \<le> y"
proof
  assume "1024 \<le> expo y"
  then have "(2::rat) powi 1024 \<le> 2 powi (expo y)" by (intro power_int_increasing) simp_all
  moreover have "2 powi (expo y) \<le> y" using expo_bounds [OF assms] by simp
  ultimately have "(2::rat) powi 1024 \<le> y" by (rule order_trans)
  then show "2 ^ 1024 \<le> y" by (simp only: power_int_numeral)
next
  assume "2 ^ 1024 \<le> y"
  then have "(2::rat) powi 1024 \<le> y" by (simp only: power_int_numeral)
  moreover have "y < 2 powi (expo y + 1)" using expo_bounds [OF assms] by simp
  ultimately have "(2::rat) powi 1024 < 2 powi (expo y + 1)" by (rule le_less_trans)
  then have "1024 < expo y + 1" by (rule powi_less_imp_less)
  then show "1024 \<le> expo y" by simp
qed

lemma expo_small:
  assumes "y < 2 ^ 53"
  shows "\<not> 1024 \<le> expo y"
proof (cases "0 < y")
  case True
  have "2 powi (expo y) \<le> y" using expo_bounds [OF True] by simp
  moreover have "y < 2 powi 53" using assms by (simp only: power_int_numeral)
  ultimately have "(2::rat) powi (expo y) < 2 powi 53" by (rule le_less_trans)
  then have "expo y < 53" by (rule powi_less_imp_less)
  then show ?thesis by simp
next
  case False
  then have "expo y = 0" by (subst expo.simps) simp
  then show ?thesis by simp
qed

lemma round_double_overflow:
  assumes "2 ^ 1024 \<le> x"
  shows "round_double x = PosInf"
proof -
  have p: "(0::rat) < 2 ^ 1024" by simp
  have x: "0 < x" using p assms by (rule less_le_trans)
  have "(2::rat) powi 1024 \<le> x" using assms by (simp only: power_int_numeral)
  moreover have "x < 2 powi (expo x + 1)" using expo_bounds [OF x] by simp
  ultimately have "(2::rat) powi 1024 < 2 powi (expo x + 1)" by (rule le_less_trans)
  then have "1024 < expo x + 1" by (rule powi_less_imp_less)
  then have e: "1024 \<le> expo x" by simp
  then have lo: "- 1022 \<le> expo x" by simp
  have f: "2 powi (expo x) \<le> fl x" using x lo by (rule fl_lower)
  have "(2::rat) powi 1024 \<le> 2 powi (expo x)" using e by (intro power_int_increasing) simp_all
  then have "(2::rat) powi 1024 \<le> fl x" using f by (rule order_trans)
  then have g: "2 ^ 1024 \<le> fl x" by (simp only: power_int_numeral)
  have "0 < fl x" using p g by (rule less_le_trans)
  then have "1024 \<le> expo (fl x)" using g by (simp only: overflow_iff)
  then show ?thesis using x by (simp add: round_double_def Let_def)
qed

lemma np_of_overflow:
  assumes "0 < b" "2 ^ 1024 \<le> a / b"
  shows "np_of a b = PosInf"
proof -
  have "js_div a b = PosInf" using assms round_double_overflow [OF assms(2)] by (simp add: js_div_def)
  then show ?thesis by (simp add: np_of_def)
qed

lemma np_of_pos:
  assumes "0 < a" "0 < b"
  shows "np_of a b = PosInf \<or> (\<exists>r. np_of a b = Fin r \<and> 1 \<le> r)"
proof -
  have x: "0 < a / b" using assms by simp
  have d: "js_div a b = round_double (a / b)" using assms by (simp add: js_div_def)
  from round_double_pos [OF x] show ?thesis
  proof (elim disjE exE conjE)
    assume "round_double (a / b) = PosInf"
    then show ?thesis by (simp add: np_of_def d)
  next
    fix r assume r: "round_double (a / b) = Fin r" "r = fl (a / b)"
    have r0: "0 \<le> r" using fl_nonneg [OF x] r(2) by simp
    then have f0: "0 \<le> \<lfloor>r\<rfloor>" by simp
    show ?thesis
    proof (cases "0 < js_rem a b")
      case True
      have "(0::rat) \<le> of_int \<lfloor>r\<rfloor>" using f0 by (simp only: of_int_0_le_iff)
      then have "1 \<le> of_int \<lfloor>r\<rfloor> + (1::rat)" by simp
      from round_double_ge_one [OF this] show ?thesis
        using True by (simp add: np_of_def d r(1))
    next
      case False
      then have i: "a / b = of_int \<lfloor>a / b\<rfloor>" using rem_pos_iff [OF assms] by simp
      have "0 < \<lfloor>a / b\<rfloor>"
      proof -
        have "(0::rat) < of_int \<lfloor>a / b\<rfloor>" using x i by simp
        then show ?thesis by (simp only: of_int_0_less_iff)
      qed
      then have "1 \<le> \<lfloor>a / b\<rfloor>" by simp
      then have "(1::rat) \<le> of_int \<lfloor>a / b\<rfloor>" by (simp only: of_int_1_le_iff)
      then have "1 \<le> a / b" using i by simp
      then have "1 \<le> fl (a / b)" by (rule fl_ge_one)
      then have "1 \<le> r" using r(2) by simp
      then have "1 \<le> \<lfloor>r\<rfloor>" by (simp add: le_floor_iff)
      then have "(1::rat) \<le> of_int \<lfloor>r\<rfloor>" by (simp only: of_int_1_le_iff)
      then show ?thesis using False by (simp add: np_of_def d r(1))
    qed
  qed
qed

lemma round_double_of_int:
  assumes "0 < n" "n < 2 ^ 53"
  shows "round_double (of_int n) = Fin (of_int n)"
proof -
  have "(of_int n :: rat) < of_int (2 ^ 53)" using assms(2) by (simp only: of_int_less_iff)
  then have "(of_int n :: rat) < 2 ^ 53" by simp
  then have "\<not> 1024 \<le> expo (of_int n :: rat)" by (rule expo_small)
  moreover have "(0::rat) < of_int n" using assms(1) by simp
  ultimately show ?thesis using fl_of_int [OF assms]
    by (simp only: round_double_def Let_def abs_of_pos if_True if_False) auto
qed

lemma js_div_safe:
  assumes "0 < a" "a < 2 ^ 53" "0 < b" "b < 2 ^ 53"
  shows "math_floor (js_div (of_int a) (of_int b)) = Fin (of_int \<lfloor>of_int a / of_int b :: rat\<rfloor>)"
proof -
  let ?x = "of_int a / of_int b :: rat"
  have x: "0 < ?x" using assms by simp
  note s = fl_safe [OF assms]
  have "fl ?x < 2 ^ 53" using s by simp
  then have "\<not> 1024 \<le> expo (fl ?x)" by (rule expo_small)
  then have "round_double ?x = Fin (fl ?x)"
    using x by (simp only: round_double_def Let_def abs_of_pos if_True if_False) auto
  moreover have "js_div (of_int a) (of_int b) = round_double ?x"
    using assms(3) by (simp add: js_div_def)
  ultimately show ?thesis using s by simp
qed

lemma np_of_safe:
  assumes "0 < a" "a < 2 ^ 53" "0 < b" "b < 2 ^ 53"
  shows "np_of (of_int a) (of_int b) = Fin (of_int \<lceil>of_int a / of_int b :: rat\<rceil>)"
proof -
  let ?x = "of_int a / of_int b :: rat"
  define k where "k = \<lfloor>?x\<rfloor>"
  have A: "(0::rat) < of_int a" "(0::rat) < of_int b" using assms by simp_all
  have d: "math_floor (js_div (of_int a) (of_int b)) = Fin (of_int k)"
    using js_div_safe [OF assms] by (simp add: k_def)
  have c: "\<lceil>?x\<rceil> = k + (if 0 < js_rem (of_int a) (of_int b) then 1 else 0)"
    using ceiling_floor_rem [OF A] by (simp add: k_def)
  show ?thesis
  proof (cases "0 < js_rem (of_int a) (of_int b)")
    case False
    then show ?thesis using d c by (simp add: np_of_def)
  next
    case True
    then have ne: "?x \<noteq> of_int k" using rem_pos_iff [OF A] by (simp add: k_def)
    have "of_int k \<le> ?x" by (simp add: k_def)
    with ne have lt: "of_int k < ?x" by simp
    have "?x \<le> of_int a"
    proof -
      have "(1::rat) \<le> of_int b" using assms(3) by simp
      then show ?thesis using A by (simp add: pos_divide_le_eq mult_le_cancel_left1)
    qed
    with lt have "(of_int k :: rat) < of_int a" by simp
    then have "k < a" by (simp only: of_int_less_iff)
    then have k1: "k + 1 < 2 ^ 53" using assms(2) by simp
    have "0 \<le> k" unfolding k_def using A by simp
    then have k0: "0 < k + 1" by simp
    have "js_incr (Fin (of_int k)) = round_double (of_int (k + 1))" by simp
    also have "\<dots> = Fin (of_int (k + 1))" using k0 k1 by (rule round_double_of_int)
    finally have "js_incr (Fin (of_int k)) = Fin (of_int (k + 1))" .
    then show ?thesis using True d c by (simp add: np_of_def)
  qed
qed

section \<open>The page change and the recalculation\<close>

lemma changePage_num:
  "changePage (JNum n) p s =
     (if page_ok n s then (False, s\<lparr>lastPage := Some p\<rparr>) else (True, s))"
  by (auto simp: changePage_def get_totalPages_def page_ok_def Let_def)

lemma changePage_non_num:
  "\<not> isNumber v \<Longrightarrow> changePage v p s = (True, s) \<or> changePage v p s = (False, s\<lparr>lastPage := Some p\<rparr>)"
  by (auto simp: changePage_def Let_def)

lemma set_page_num:
  "subscr s \<Longrightarrow> set_page (JNum n) s =
     (if page_ok n s then s\<lparr>lastPage := Some (page s), page := n\<rparr> else s)"
  by (simp add: set_page_def changePage_num)

lemma store_page_non_num: "\<not> isNumber v \<Longrightarrow> store_page v s = s"
  by (cases v) simp_all

lemma set_page_non_num:
  "\<not> isNumber v \<Longrightarrow> set_page v s = s \<or> set_page v s = s\<lparr>lastPage := Some (page s)\<rparr>"
  using changePage_non_num [of v "page s" s]
  by (auto simp: set_page_def store_page_non_num)

lemma set_page_cases:
  "subscr s \<Longrightarrow> set_page v s = s \<or> set_page v s = s\<lparr>lastPage := Some (page s)\<rparr>
     \<or> (\<exists>n. v = JNum n \<and> page_ok n s \<and> set_page v s = s\<lparr>lastPage := Some (page s), page := n\<rparr>)"
proof (cases "isNumber v")
  case True
  then obtain n where "v = JNum n" by (cases v) simp_all
  moreover assume "subscr s"
  ultimately show ?thesis by (simp add: set_page_num)
next
  case False
  then show ?thesis using set_page_non_num [of v s] by blast
qed

lemma recalc_ok:
  assumes "totalItems s = Some a" "itemsPerPage s = Some b" "0 < a" "0 < b"
  shows "recalcPagnParams s = (True, set_page (JNum 1) (s\<lparr>npages := of_number (np_of a b)\<rparr>))"
  using assms by (simp add: recalcPagnParams_def np_of_def Let_def)

lemma recalc_fail:
  assumes "\<not> (\<exists>a b. totalItems s = Some a \<and> itemsPerPage s = Some b \<and> 0 < a \<and> 0 < b)"
  shows "recalcPagnParams s = (False, s)"
proof -
  have "\<not> (truthy (totalItems s) \<and> truthy (itemsPerPage s) \<and> num_of (totalItems s) > 0 \<and> num_of (itemsPerPage s) > 0)"
    using assms by (cases "totalItems s"; cases "itemsPerPage s") auto
  then show ?thesis by (auto simp add: recalcPagnParams_def Let_def)
qed

lemma page_ok_first:
  assumes "itemsPerPage s = Some b" "0 < a" "0 < b"
  shows "page_ok 1 (s\<lparr>npages := of_number (np_of a b)\<rparr>)"
  using np_of_pos [OF assms(2,3)] assms(1,3) by (auto simp: page_ok_def)

lemma recalc_ok_subscr:
  assumes "totalItems s = Some a" "itemsPerPage s = Some b" "0 < a" "0 < b" "subscr s"
  shows "snd (recalcPagnParams s) = s\<lparr>npages := of_number (np_of a b), lastPage := Some (page s), page := 1\<rparr>"
  using assms page_ok_first [OF assms(2,3,4)] by (simp add: recalc_ok set_page_num)

lemma recalc_ok_init:
  assumes "totalItems s = Some a" "itemsPerPage s = Some b" "0 < a" "0 < b" "\<not> subscr s"
  shows "snd (recalcPagnParams s) = s\<lparr>npages := of_number (np_of a b), page := 1\<rparr>"
  using assms by (simp add: recalc_ok set_page_def)

section \<open>The invariant of the reachable states\<close>

lemma np_of_inv:
  assumes "0 < a" "0 < b"
  shows "of_number (np_of a b) = JPosInf \<or> (\<exists>np. of_number (np_of a b) = JNum np \<and> 1 \<le> np)"
  using np_of_pos [OF assms] by auto

lemma inv_construct: "inv (construct ti ipp)"
proof (cases "\<exists>a b. init_value ti = Some a \<and> init_value ipp = Some b \<and> 0 < a \<and> 0 < b")
  case True
  then obtain a b where ab: "init_value ti = Some a" "init_value ipp = Some b" "0 < a" "0 < b" by blast
  let ?s = "\<lparr>totalItems = init_value ti, itemsPerPage = init_value ipp, page = 1,
                  lastPage = None, npages = JNull, subscr = False\<rparr>"
  have "snd (recalcPagnParams ?s) = ?s\<lparr>npages := of_number (np_of a b), page := 1\<rparr>"
    using ab by (intro recalc_ok_init) simp_all
  then show ?thesis using ab np_of_inv [OF ab(3,4)]
    by (auto simp: construct_def initializer_def inv_def)
next
  case False
  let ?s = "\<lparr>totalItems = init_value ti, itemsPerPage = init_value ipp, page = 1,
                  lastPage = None, npages = JNull, subscr = False\<rparr>"
  have "recalcPagnParams ?s = (False, ?s)"
    using False by (intro recalc_fail) simp
  then show ?thesis using False
    by (simp add: construct_def initializer_def inv_def)
qed

lemma inv_set_page: "inv s \<Longrightarrow> inv (set_page v s)"
proof -
  assume i: "inv s"
  then have "subscr s" by (simp add: inv_def)
  from set_page_cases [OF this, of v] show ?thesis
  proof (elim disjE exE conjE)
    assume "set_page v s = s" then show ?thesis using i by simp
  next
    assume "set_page v s = s\<lparr>lastPage := Some (page s)\<rparr>"
    then show ?thesis using i by (simp add: inv_def)
  next
    fix n assume "page_ok n s" "set_page v s = s\<lparr>lastPage := Some (page s), page := n\<rparr>"
    then show ?thesis using i by (auto simp: inv_def page_ok_def)
  qed
qed

lemma inv_sizing:
  assumes i: "inv s"
    and rest: "page s1 = page s" "npages s1 = npages s" "subscr s1 = subscr s"
  shows "inv (snd (recalcPagnParams s1))"
proof (cases "\<exists>a b. totalItems s1 = Some a \<and> itemsPerPage s1 = Some b \<and> 0 < a \<and> 0 < b")
  case True
  then obtain a b where ab: "totalItems s1 = Some a" "itemsPerPage s1 = Some b" "0 < a" "0 < b" by blast
  have "subscr s1" using i rest by (simp add: inv_def)
  from recalc_ok_subscr [OF ab this] show ?thesis
    using ab np_of_inv [OF ab(3,4)] \<open>subscr s1\<close> by (auto simp: inv_def)
next
  case False
  then have "recalcPagnParams s1 = (False, s1)" by (rule recalc_fail)
  then show ?thesis using False i rest by (auto simp: inv_def)
qed

lemma inv_set_totalItems: "inv s \<Longrightarrow> inv (set_totalItems v s)"
proof (cases v)
  case (JNum r)
  assume i: "inv s"
  then have sub: "subscr s" by (simp add: inv_def)
  show ?thesis
  proof (cases "totalItems s = Some r")
    case True then show ?thesis using i JNum by (simp add: set_totalItems_def)
  next
    case False
    have "inv (snd (recalcPagnParams (s\<lparr>totalItems := Some r\<rparr>)))"
      using i by (rule inv_sizing) simp_all
    then show ?thesis using False JNum sub by (simp add: set_totalItems_def)
  qed
qed (simp_all add: set_totalItems_def)

lemma inv_set_itemsPerPage: "inv s \<Longrightarrow> inv (set_itemsPerPage v s)"
proof (cases v)
  case (JNum r)
  assume i: "inv s"
  then have sub: "subscr s" by (simp add: inv_def)
  show ?thesis
  proof (cases "itemsPerPage s = Some r")
    case True then show ?thesis using i JNum by (simp add: set_itemsPerPage_def)
  next
    case False
    have "inv (snd (recalcPagnParams (s\<lparr>itemsPerPage := Some r\<rparr>)))"
      using i by (rule inv_sizing) simp_all
    then show ?thesis using False JNum sub by (simp add: set_itemsPerPage_def)
  qed
qed (simp_all add: set_itemsPerPage_def)

lemma reachable_inv: "reachable s \<Longrightarrow> inv s"
  by (induction rule: reachable.induct)
     (simp_all add: inv_construct inv_set_totalItems inv_set_itemsPerPage inv_set_page)

section \<open>Fields that an operation leaves alone\<close>

lemma store_page_fields [simp]:
  "totalItems (store_page v s) = totalItems s" "itemsPerPage (store_page v s) = itemsPerPage s"
  "npages (store_page v s) = npages s" "subscr (store_page v s) = subscr s"
  "lastPage (store_page v s) = lastPage s"
  by (cases v; simp)+

lemma set_page_fields [simp]:
  "totalItems (set_page v s) = totalItems s" "itemsPerPage (set_page v s) = itemsPerPage s"
  "npages (set_page v s) = npages s" "subscr (set_page v s) = subscr s"
proof -
  have "subscr s \<Longrightarrow> set_page v s = s \<or> set_page v s = s\<lparr>lastPage := Some (page s)\<rparr>
     \<or> (\<exists>n. set_page v s = s\<lparr>lastPage := Some (page s), page := n\<rparr>)"
    using set_page_cases [of s v] by blast
  moreover have "\<not> subscr s \<Longrightarrow> set_page v s = store_page v s" by (simp add: set_page_def)
  ultimately have c: "set_page v s = s \<or> set_page v s = s\<lparr>lastPage := Some (page s)\<rparr>
     \<or> (\<exists>n. set_page v s = s\<lparr>lastPage := Some (page s), page := n\<rparr>) \<or> set_page v s = store_page v s"
    by blast
  show "totalItems (set_page v s) = totalItems s" using c by (elim disjE exE) simp_all
  show "itemsPerPage (set_page v s) = itemsPerPage s" using c by (elim disjE exE) simp_all
  show "npages (set_page v s) = npages s" using c by (elim disjE exE) simp_all
  show "subscr (set_page v s) = subscr s" using c by (elim disjE exE) simp_all
qed

lemma recalc_fields [simp]:
  "totalItems (snd (recalcPagnParams s)) = totalItems s"
  "itemsPerPage (snd (recalcPagnParams s)) = itemsPerPage s"
  "subscr (snd (recalcPagnParams s)) = subscr s"
  by (simp_all add: recalcPagnParams_def Let_def)

lemma set_totalItems_fields [simp]:
  "totalItems (set_totalItems (JNum r) s) = Some r"
  "itemsPerPage (set_totalItems v s) = itemsPerPage s"
  "subscr (set_totalItems v s) = subscr s"
  by (cases v; simp add: set_totalItems_def Let_def)+

lemma set_itemsPerPage_fields [simp]:
  "itemsPerPage (set_itemsPerPage (JNum r) s) = Some r"
  "totalItems (set_itemsPerPage v s) = totalItems s"
  "subscr (set_itemsPerPage v s) = subscr s"
  by (cases v; simp add: set_itemsPerPage_def Let_def)+

lemma set_sizing_non_num:
  "\<not> isNumber v \<Longrightarrow> set_totalItems v s = s" "\<not> isNumber v \<Longrightarrow> set_itemsPerPage v s = s"
  by (cases v; simp add: set_totalItems_def set_itemsPerPage_def)+

lemma complete_iff:
  "complete s \<longleftrightarrow> (\<exists>a b. totalItems s = Some a \<and> itemsPerPage s = Some b \<and> 0 < a \<and> 0 < b)"
  by (cases "totalItems s"; cases "itemsPerPage s") (auto simp: complete_def)

lemma reachable_totalPages:
  assumes "reachable s" "totalItems s = Some a" "itemsPerPage s = Some b" "0 < a" "0 < b"
  shows "get_totalPages s = of_number (np_of a b)"
  using reachable_inv [OF assms(1)] assms(2-5) by (simp add: inv_def get_totalPages_def)

section \<open>Accepted and rejected page requests\<close>

lemma set_page_rejected:
  assumes "subscr s"
    and "js_less (ToNumber v) (Fin 1) \<or> \<not> js_truthy (get_totalPages s) \<or> \<not> truthy (itemsPerPage s)
         \<or> js_less (ToNumber (get_totalPages s)) (ToNumber v)"
  shows "changePage v p s = (True, s)" "set_page v s = s"
proof -
  show c: "changePage v p s = (True, s)" for p
    using assms(2) by (auto simp: changePage_def Let_def)
  show "set_page v s = s" using assms(1) c by (simp add: set_page_def)
qed

lemma set_page_keeps_page:
  assumes "\<not> isNumber v"
  shows "page (set_page v s) = page s"
  using set_page_non_num [OF assms, of s] by auto


lemma recalc_complete:
  assumes "complete s" "subscr s"
  shows "page (snd (recalcPagnParams s)) = 1"
proof -
  obtain a b where ab: "totalItems s = Some a" "itemsPerPage s = Some b" "0 < a" "0 < b"
    using assms(1) by (auto simp: complete_iff)
  show ?thesis using recalc_ok_subscr [OF ab assms(2)] by simp
qed

lemma recalc_incomplete:
  assumes "\<not> complete s"
  shows "recalcPagnParams s = (False, s)"
  using assms by (intro recalc_fail) (simp add: complete_iff)

lemma complete_recalc [simp]: "complete (snd (recalcPagnParams s)) = complete s"
  by (simp add: complete_def)

lemma set_totalItems_changed:
  assumes "subscr s" "totalItems s \<noteq> Some r"
  shows "set_totalItems (JNum r) s = snd (recalcPagnParams (s\<lparr>totalItems := Some r\<rparr>))"
  using assms by (simp add: set_totalItems_def)

lemma set_itemsPerPage_changed:
  assumes "subscr s" "itemsPerPage s \<noteq> Some r"
  shows "set_itemsPerPage (JNum r) s = snd (recalcPagnParams (s\<lparr>itemsPerPage := Some r\<rparr>))"
  using assms by (simp add: set_itemsPerPage_def)

section \<open>The page count\<close>

text \<open>
  C1, as stated, fails for sizing inputs that are not integers: with \<open>totalItems = 1\<close>
  and \<open>itemsPerPage\<close> the double \<^verbatim>\<open>0.1\<close>, the quotient rounds to the double 10, the
  remainder is positive, and \<open>totalPages\<close> is 11, while the ceiling of the quotient is
  10 (of the exact quotient and of the double alike).
\<close>

theorem totalPages_fractional_counterexample:
  "round_double (1 / 10) = Fin (3602879701896397 / 36028797018963968)
   \<and> js_div 1 (3602879701896397 / 36028797018963968) = Fin 10
   \<and> 0 < js_rem 1 (3602879701896397 / 36028797018963968)
   \<and> \<lceil>1 / (3602879701896397 / 36028797018963968) :: rat\<rceil> = 10
   \<and> get_totalPages (construct (JNum 1) (JNum (3602879701896397 / 36028797018963968))) = JNum 11"
  by code_simp

text \<open>
  C1, amended. For integers \<open>totalItems\<close> and \<open>itemsPerPage\<close> that are positive and
  below \<open>2 ^ 53\<close>, once the sizing inputs are set (by the two setters from any
  reachable state, by construction, or in any reachable state that holds them)
  \<open>totalPages\<close> is the ceiling of \<open>totalItems / itemsPerPage\<close>; the floor of the double
  quotient is the floor of the exact one, and the ceiling is that floor plus 1 when the
  remainder is positive; 500 items at 33 per page give 16 pages.
\<close>

theorem totalPages_ceiling:
  fixes a b :: int
  assumes "reachable s" "0 < a" "a < 2 ^ 53" "0 < b" "b < 2 ^ 53"
  shows "get_totalPages (set_itemsPerPage (JNum (of_int b)) (set_totalItems (JNum (of_int a)) s))
           = JNum (of_int \<lceil>of_int a / of_int b :: rat\<rceil>)
       \<and> get_totalPages (construct (JNum (of_int a)) (JNum (of_int b)))
           = JNum (of_int \<lceil>of_int a / of_int b :: rat\<rceil>)
       \<and> (totalItems s = Some (of_int a) \<and> itemsPerPage s = Some (of_int b)
            \<longrightarrow> get_totalPages s = JNum (of_int \<lceil>of_int a / of_int b :: rat\<rceil>))
       \<and> math_floor (js_div (of_int a) (of_int b)) = Fin (of_int \<lfloor>of_int a / of_int b :: rat\<rfloor>)
       \<and> \<lceil>of_int a / of_int b :: rat\<rceil>
           = \<lfloor>of_int a / of_int b :: rat\<rfloor> + (if 0 < js_rem (of_int a) (of_int b) then 1 else 0)
       \<and> get_totalPages (construct (JNum 500) (JNum 33)) = JNum 16"
proof (intro conjI impI)
  have p: "(0::rat) < of_int a" "(0::rat) < of_int b" using assms by simp_all
  note n = np_of_safe [OF assms(2-5)]
  let ?s = "set_itemsPerPage (JNum (of_int b)) (set_totalItems (JNum (of_int a)) s)"
  have "reachable ?s" using assms(1) by (intro reachable.intros)
  then have "get_totalPages ?s = of_number (np_of (of_int a) (of_int b))"
    by (rule reachable_totalPages [OF _ _ _ p]) simp_all
  then show "get_totalPages ?s = JNum (of_int \<lceil>of_int a / of_int b :: rat\<rceil>)"
    by (simp add: n)
  let ?c = "construct (JNum (of_int a)) (JNum (of_int b))"
  have f: "totalItems ?c = Some (of_int a)" "itemsPerPage ?c = Some (of_int b)"
    by (simp_all add: construct_def initializer_def)
  have "get_totalPages ?c = of_number (np_of (of_int a) (of_int b))"
    using r_construct f p by (rule reachable_totalPages)
  then show "get_totalPages ?c = JNum (of_int \<lceil>of_int a / of_int b :: rat\<rceil>)"
    by (simp add: n)
  show "get_totalPages s = JNum (of_int \<lceil>of_int a / of_int b :: rat\<rceil>)"
    if "totalItems s = Some (of_int a) \<and> itemsPerPage s = Some (of_int b)"
    using reachable_totalPages [OF assms(1) _ _ p] that by (simp add: n)
  show "math_floor (js_div (of_int a) (of_int b)) = Fin (of_int \<lfloor>of_int a / of_int b :: rat\<rfloor>)"
    using assms(2-5) by (rule js_div_safe)
  show "\<lceil>of_int a / of_int b :: rat\<rceil>
           = \<lfloor>of_int a / of_int b :: rat\<rfloor> + (if 0 < js_rem (of_int a) (of_int b) then 1 else 0)"
    using p by (rule ceiling_floor_rem)
  show "get_totalPages (construct (JNum 500) (JNum 33)) = JNum 16"
    by code_simp
qed

theorem totalPages_ceiling_witness:
  "reachable (construct (JNum 500) (JNum 33))
     \<and> (0::int) < 500 \<and> (500::int) < 2 ^ 53 \<and> (0::int) < 33 \<and> (33::int) < 2 ^ 53
     \<and> totalItems (construct (JNum 500) (JNum 33)) = Some 500
     \<and> itemsPerPage (construct (JNum 500) (JNum 33)) = Some 33
     \<and> get_totalPages (construct (JNum 500) (JNum 33)) = JNum 16
     \<and> get_totalPages (set_itemsPerPage (JNum 33) (set_totalItems (JNum 500)
          (construct (JNum 500) (JNum 33)))) = JNum 16"
proof -
  have r: "reachable (construct (JNum 500) (JNum 33))" by (rule r_construct)
  have f: "totalItems (construct (JNum 500) (JNum 33)) = Some 500"
    "itemsPerPage (construct (JNum 500) (JNum 33)) = Some 33"
    by code_simp+
  have c: "\<lceil>500 / 33 :: rat\<rceil> = 16" by code_simp
  have p: "(0::int) < 500" "(500::int) < 2 ^ 53" "(0::int) < 33" "(33::int) < 2 ^ 53" by simp_all
  note t = totalPages_ceiling [OF r p]
  have "get_totalPages (set_itemsPerPage (JNum 33) (set_totalItems (JNum 500)
          (construct (JNum 500) (JNum 33)))) = JNum 16"
    using t [THEN conjunct1] c by simp
  moreover have "get_totalPages (construct (JNum 500) (JNum 33)) = JNum 16"
    using t [THEN conjunct2, THEN conjunct2, THEN conjunct1] f c by simp
  ultimately show ?thesis using r f by simp
qed

section \<open>The page stays within the page count\<close>

text \<open>
  C2. In every state reachable by construction and any sequence of the three setters,
  a positive \<open>totalPages\<close> bounds the page: \<open>1 \<le> page \<le> totalPages\<close> (with
  \<open>totalPages\<close> \<^verbatim>\<open>Infinity\<close>, \<open>1 \<le> page\<close>). A requested page below 1, above
  \<open>totalPages\<close>, not a finite number, or requested while \<open>totalPages\<close> or
  \<open>itemsPerPage\<close> is unset or zero, leaves the stored page as it was.
\<close>

theorem page_within_totalPages:
  assumes "reachable s"
  shows "(\<forall>np. get_totalPages s = JNum np \<and> 0 < np \<longrightarrow> 1 \<le> page s \<and> page s \<le> np)
       \<and> (get_totalPages s = JPosInf \<longrightarrow> 1 \<le> page s)
       \<and> (js_less (ToNumber v) (Fin 1)
            \<or> js_less (ToNumber (get_totalPages s)) (ToNumber v)
            \<or> \<not> isNumber v
            \<or> \<not> js_truthy (get_totalPages s) \<or> \<not> truthy (itemsPerPage s)
          \<longrightarrow> page (set_page v s) = page s)"
proof (intro conjI allI impI)
  fix np assume "get_totalPages s = JNum np \<and> 0 < np"
  then show "1 \<le> page s" "page s \<le> np"
    using reachable_inv [OF assms] by (auto simp: inv_def get_totalPages_def)
next
  assume "get_totalPages s = JPosInf"
  then show "1 \<le> page s"
    using reachable_inv [OF assms] by (auto simp: inv_def get_totalPages_def)
next
  assume h: "js_less (ToNumber v) (Fin 1)
            \<or> js_less (ToNumber (get_totalPages s)) (ToNumber v)
            \<or> \<not> isNumber v
            \<or> \<not> js_truthy (get_totalPages s) \<or> \<not> truthy (itemsPerPage s)"
  have sub: "subscr s" using reachable_inv [OF assms] by (simp add: inv_def)
  show "page (set_page v s) = page s"
  proof (cases "isNumber v")
    case False
    then show ?thesis by (rule set_page_keeps_page)
  next
    case True
    with h have "js_less (ToNumber v) (Fin 1) \<or> \<not> js_truthy (get_totalPages s)
         \<or> \<not> truthy (itemsPerPage s)
         \<or> js_less (ToNumber (get_totalPages s)) (ToNumber v)" by blast
    with sub have "set_page v s = s" by (rule set_page_rejected(2))
    then show ?thesis by simp
  qed
qed

theorem page_within_totalPages_witness:
  "reachable (set_page (JNum 3) (construct (JNum 500) (JNum 50)))
   \<and> get_totalPages (set_page (JNum 3) (construct (JNum 500) (JNum 50))) = JNum 10
   \<and> (0::rat) < 10
   \<and> 1 \<le> page (set_page (JNum 3) (construct (JNum 500) (JNum 50)))
   \<and> page (set_page (JNum 3) (construct (JNum 500) (JNum 50))) \<le> 10
   \<and> js_less (ToNumber (get_totalPages (set_page (JNum 3) (construct (JNum 500) (JNum 50)))))
        (ToNumber (JNum 11))
   \<and> page (set_page (JNum 11) (set_page (JNum 3) (construct (JNum 500) (JNum 50))))
        = page (set_page (JNum 3) (construct (JNum 500) (JNum 50)))
   \<and> reachable (construct (JNum (2 ^ 1023)) (JNum (1 / 4)))
   \<and> get_totalPages (construct (JNum (2 ^ 1023)) (JNum (1 / 4))) = JPosInf
   \<and> 1 \<le> page (construct (JNum (2 ^ 1023)) (JNum (1 / 4)))"
proof -
  let ?s = "set_page (JNum 3) (construct (JNum 500) (JNum 50))"
  have r: "reachable ?s" by (intro reachable.intros)
  have g: "get_totalPages ?s = JNum 10" by code_simp
  have l: "js_less (ToNumber (get_totalPages ?s)) (ToNumber (JNum 11))" by code_simp
  note t = page_within_totalPages [OF r, of "JNum 11"]
  have b: "1 \<le> page ?s \<and> page ?s \<le> 10"
    using t [THEN conjunct1] g by simp
  have k: "page (set_page (JNum 11) ?s) = page ?s"
    using t [THEN conjunct2, THEN conjunct2] l by blast
  let ?c = "construct (JNum (2 ^ 1023)) (JNum (1 / 4))"
  have rc: "reachable ?c" by (rule r_construct)
  have f: "totalItems ?c = Some (2 ^ 1023)" "itemsPerPage ?c = Some (1 / 4)"
    by (simp_all add: construct_def initializer_def)
  have p: "(0::rat) < 2 ^ 1023" "(0::rat) < 1 / 4" by simp_all
  have "(2::rat) ^ 1024 \<le> 2 ^ 1023 / (1 / 4)" by simp
  then have "np_of (2 ^ 1023) (1 / 4) = PosInf" using p(2) by (intro np_of_overflow)
  then have i: "get_totalPages ?c = JPosInf"
    using reachable_totalPages [OF rc f p] by simp
  have j: "1 \<le> page ?c"
    using page_within_totalPages [OF rc, of JNull, THEN conjunct2, THEN conjunct1] i by blast
  have z: "(0::rat) < 10" by simp
  show ?thesis using r g l b k rc i j z by blast
qed

section \<open>Requests that are not numbers\<close>

text \<open>
  C3. The rejection law holds for finite numbers (\<open>set_page_rejected\<close>), but not for a
  request that is not a number: with the page at 3 of 10 and \<open>lastPage = 1\<close>, the
  request \<^verbatim>\<open>NaN\<close> passes both comparisons of \<^verbatim>\<open>_changePage\<close>, which does not prevent
  the change and stores the current page in \<open>lastPage\<close>; only the validator then keeps
  the page. The comment of \<^verbatim>\<open>_changePage\<close> counts a non-numeric page among the invalid
  changes that it prevents.
\<close>

theorem non_numeric_request_overwrites_lastPage:
  "lastPage (set_page (JNum 3) (construct (JNum 500) (JNum 50))) = Some 1
   \<and> page (set_page (JNum 3) (construct (JNum 500) (JNum 50))) = 3
   \<and> \<not> isNumber JNaN
   \<and> page (set_page JNaN (set_page (JNum 3) (construct (JNum 500) (JNum 50)))) = 3
   \<and> lastPage (set_page JNaN (set_page (JNum 3) (construct (JNum 500) (JNum 50)))) = Some 3"
  by code_simp

text \<open>
  C4. A finite number within the range is accepted (\<open>set_page_accepted\<close>: the page
  becomes \<open>n\<close> and \<open>lastPage\<close> the page before). \<open>lastPage\<close> changes on other calls too:
  after construction with 95 items at 10 per page, the request \<^verbatim>\<open>undefined\<close> leaves the
  page at 1 and sets \<open>lastPage\<close> from \<^verbatim>\<open>null\<close> to 1.
\<close>

theorem lastPage_changes_without_page_change:
  "page (construct (JNum 95) (JNum 10)) = 1
   \<and> lastPage (construct (JNum 95) (JNum 10)) = None
   \<and> page (set_page JUndefined (construct (JNum 95) (JNum 10))) = 1
   \<and> lastPage (set_page JUndefined (construct (JNum 95) (JNum 10))) = Some 1"
  by code_simp

section \<open>Requesting the current page\<close>

text \<open>
  C5, as stated, fails: with the page at 3 of 10 and \<open>lastPage = 1\<close>, requesting page 3
  again sets \<open>lastPage\<close> to 3.
\<close>

theorem same_page_overwrites_lastPage_counterexample:
  "page (set_page (JNum 3) (construct (JNum 500) (JNum 50))) = 3
   \<and> lastPage (set_page (JNum 3) (construct (JNum 500) (JNum 50))) = Some 1
   \<and> lastPage (set_page (JNum 3) (set_page (JNum 3) (construct (JNum 500) (JNum 50)))) = Some 3"
  by code_simp

text \<open>
  C5, amended. Requesting the current page leaves the page as it is; \<open>lastPage\<close>
  becomes the current page when the request is valid (\<open>totalPages\<close> and \<open>itemsPerPage\<close>
  set and non-zero, the page within the range) and is unchanged otherwise.
\<close>

theorem set_current_page:
  assumes "subscr s"
  shows "page (set_page (JNum (page s)) s) = page s
       \<and> lastPage (set_page (JNum (page s)) s) =
           (if 1 \<le> page s \<and> js_truthy (get_totalPages s) \<and> truthy (itemsPerPage s)
               \<and> \<not> js_less (ToNumber (get_totalPages s)) (Fin (page s))
            then Some (page s) else lastPage s)"
  using assms by (simp add: set_page_num page_ok_def get_totalPages_def)

theorem set_current_page_witness:
  "subscr (set_page (JNum 3) (construct (JNum 500) (JNum 50)))
   \<and> page (set_page (JNum 3) (construct (JNum 500) (JNum 50))) = 3
   \<and> page (set_page (JNum 3) (set_page (JNum 3) (construct (JNum 500) (JNum 50)))) = 3
   \<and> lastPage (set_page (JNum 3) (set_page (JNum 3) (construct (JNum 500) (JNum 50)))) = Some 3"
proof -
  let ?s = "set_page (JNum 3) (construct (JNum 500) (JNum 50))"
  have s: "subscr ?s" by code_simp
  have p: "page ?s = 3" by code_simp
  have c: "1 \<le> page ?s \<and> js_truthy (get_totalPages ?s) \<and> truthy (itemsPerPage ?s)
               \<and> \<not> js_less (ToNumber (get_totalPages ?s)) (Fin (page ?s))" by code_simp
  show ?thesis using set_current_page [OF s] s p c by simp
qed

section \<open>Changes of the sizing inputs\<close>

text \<open>
  C6, as stated, fails: with the page at 5 of 10, setting \<open>totalItems\<close> to 0 is
  accepted and stored, the recalculation fails its guard, and the page stays 5.
\<close>

theorem sizing_change_keeps_page_counterexample:
  "page (set_page (JNum 5) (construct (JNum 500) (JNum 50))) = 5
   \<and> isNumber (JNum 0)
   \<and> totalItems (set_totalItems (JNum 0) (set_page (JNum 5) (construct (JNum 500) (JNum 50)))) = Some 0
   \<and> page (set_totalItems (JNum 0) (set_page (JNum 5) (construct (JNum 500) (JNum 50)))) = 5"
  by code_simp

text \<open>
  C6, amended. A numeric \<open>totalItems\<close> or \<open>itemsPerPage\<close> that differs from the stored
  value, and after which both sizing inputs are positive, resets the page to 1 whatever
  the page was.
\<close>

theorem sizing_change_resets_page:
  assumes "subscr s"
  shows "(totalItems s \<noteq> Some r \<and> complete (set_totalItems (JNum r) s)
            \<longrightarrow> page (set_totalItems (JNum r) s) = 1)
       \<and> (itemsPerPage s \<noteq> Some r \<and> complete (set_itemsPerPage (JNum r) s)
            \<longrightarrow> page (set_itemsPerPage (JNum r) s) = 1)"
proof (intro conjI impI)
  assume h: "totalItems s \<noteq> Some r \<and> complete (set_totalItems (JNum r) s)"
  let ?s1 = "s\<lparr>totalItems := Some r\<rparr>"
  have e: "set_totalItems (JNum r) s = snd (recalcPagnParams ?s1)"
    using assms h by (simp add: set_totalItems_changed)
  have "complete ?s1" using h e by simp
  then have "page (snd (recalcPagnParams ?s1)) = 1" using assms by (intro recalc_complete) simp_all
  then show "page (set_totalItems (JNum r) s) = 1" using e by simp
next
  assume h: "itemsPerPage s \<noteq> Some r \<and> complete (set_itemsPerPage (JNum r) s)"
  let ?s1 = "s\<lparr>itemsPerPage := Some r\<rparr>"
  have e: "set_itemsPerPage (JNum r) s = snd (recalcPagnParams ?s1)"
    using assms h by (simp add: set_itemsPerPage_changed)
  have "complete ?s1" using h e by simp
  then have "page (snd (recalcPagnParams ?s1)) = 1" using assms by (intro recalc_complete) simp_all
  then show "page (set_itemsPerPage (JNum r) s) = 1" using e by simp
qed

theorem sizing_change_resets_page_witness:
  "subscr (set_page (JNum 5) (construct (JNum 500) (JNum 50)))
   \<and> page (set_page (JNum 5) (construct (JNum 500) (JNum 50))) = 5
   \<and> totalItems (set_page (JNum 5) (construct (JNum 500) (JNum 50))) \<noteq> Some 20
   \<and> complete (set_totalItems (JNum 20) (set_page (JNum 5) (construct (JNum 500) (JNum 50))))
   \<and> page (set_totalItems (JNum 20) (set_page (JNum 5) (construct (JNum 500) (JNum 50)))) = 1
   \<and> itemsPerPage (set_page (JNum 5) (construct (JNum 500) (JNum 50))) \<noteq> Some 20
   \<and> complete (set_itemsPerPage (JNum 20) (set_page (JNum 5) (construct (JNum 500) (JNum 50))))
   \<and> page (set_itemsPerPage (JNum 20) (set_page (JNum 5) (construct (JNum 500) (JNum 50)))) = 1"
proof -
  let ?s = "set_page (JNum 5) (construct (JNum 500) (JNum 50))"
  have s: "subscr ?s" by code_simp
  have p: "page ?s = 5" by code_simp
  have a: "totalItems ?s \<noteq> Some 20 \<and> complete (set_totalItems (JNum 20) ?s)" by code_simp
  have b: "itemsPerPage ?s \<noteq> Some 20 \<and> complete (set_itemsPerPage (JNum 20) ?s)" by code_simp
  note t = sizing_change_resets_page [OF s, of 20]
  have "page (set_totalItems (JNum 20) ?s) = 1" using t [THEN conjunct1] a by blast
  moreover have "page (set_itemsPerPage (JNum 20) ?s) = 1" using t [THEN conjunct2] b by blast
  ultimately show ?thesis using s p a b by blast
qed

section \<open>The item range of the current page\<close>



section \<open>Validation of the sizing inputs\<close>

text \<open>
  C8, as stated, fails: a negative \<open>totalItems\<close> and a zero \<open>itemsPerPage\<close> are both
  stored.
\<close>

theorem sizing_setters_store_negative_counterexample:
  "totalItems (construct (JNum 500) (JNum 50)) = Some 500
   \<and> totalItems (set_totalItems (JNum (- 5)) (construct (JNum 500) (JNum 50))) = Some (- 5)
   \<and> itemsPerPage (construct (JNum 500) (JNum 50)) = Some 50
   \<and> itemsPerPage (set_itemsPerPage (JNum 0) (construct (JNum 500) (JNum 50))) = Some 0"
  by code_simp

text \<open>
  C8, amended. A value that is not a finite number leaves the whole state unchanged (the
  call returns normally); every finite number, negative and zero included, is stored.
\<close>

theorem sizing_setters_validate_numeric_only:
  "(\<not> isNumber v \<longrightarrow> set_totalItems v s = s \<and> set_itemsPerPage v s = s)
   \<and> totalItems (set_totalItems (JNum r) s) = Some r
   \<and> itemsPerPage (set_itemsPerPage (JNum r) s) = Some r"
  by (simp add: set_sizing_non_num)

theorem sizing_setters_validate_numeric_only_witness:
  "\<not> isNumber JNaN
   \<and> set_totalItems JNaN (construct (JNum 500) (JNum 50)) = construct (JNum 500) (JNum 50)
   \<and> set_itemsPerPage JNaN (construct (JNum 500) (JNum 50)) = construct (JNum 500) (JNum 50)
   \<and> totalItems (set_totalItems (JNum (- 5)) (construct (JNum 500) (JNum 50))) = Some (- 5)"
  using sizing_setters_validate_numeric_only [of JNaN "construct (JNum 500) (JNum 50)" "- 5"]
  by simp

section \<open>The page count of incomplete inputs\<close>

text \<open>
  C9, as stated, fails: after construction without sizing inputs \<open>totalPages\<close> is
  \<^verbatim>\<open>null\<close>, not 0, and after \<open>totalItems\<close> of a complete configuration is set to 0 it is
  still 10.
\<close>

theorem totalPages_not_zero_counterexample:
  "get_totalPages (construct JUndefined JUndefined) = JNull
   \<and> \<not> complete (set_totalItems (JNum 0) (construct (JNum 500) (JNum 50)))
   \<and> get_totalPages (set_totalItems (JNum 0) (construct (JNum 500) (JNum 50))) = JNum 10"
  by code_simp

text \<open>
  C9, amended. After construction with incomplete sizing inputs \<open>totalPages\<close> is
  \<^verbatim>\<open>null\<close>; a setter call that leaves the sizing inputs incomplete leaves \<open>totalPages\<close>
  at the value it had.
\<close>

theorem incomplete_inputs_keep_totalPages:
  "(\<not> complete (construct ti ipp) \<longrightarrow> get_totalPages (construct ti ipp) = JNull)
   \<and> (\<not> complete (set_totalItems v s) \<longrightarrow> get_totalPages (set_totalItems v s) = get_totalPages s)
   \<and> (\<not> complete (set_itemsPerPage v s)
        \<longrightarrow> get_totalPages (set_itemsPerPage v s) = get_totalPages s)"
proof (intro conjI impI)
  let ?s0 = "\<lparr>totalItems = init_value ti, itemsPerPage = init_value ipp, page = 1,
                  lastPage = None, npages = JNull, subscr = False\<rparr>"
  assume "\<not> complete (construct ti ipp)"
  then have "\<not> complete ?s0" by (simp add: construct_def initializer_def complete_def)
  then have "recalcPagnParams ?s0 = (False, ?s0)" by (rule recalc_incomplete)
  then show "get_totalPages (construct ti ipp) = JNull"
    by (simp add: construct_def initializer_def get_totalPages_def)
next
  assume h: "\<not> complete (set_totalItems v s)"
  show "get_totalPages (set_totalItems v s) = get_totalPages s"
  proof (cases v)
    case (JNum r)
    show ?thesis
    proof (cases "totalItems s = Some r \<or> \<not> subscr s")
      case True
      then show ?thesis using JNum by (auto simp: set_totalItems_def get_totalPages_def)
    next
      case False
      then have e: "set_totalItems v s = snd (recalcPagnParams (s\<lparr>totalItems := Some r\<rparr>))"
        using JNum by (simp add: set_totalItems_def)
      with h have "\<not> complete (s\<lparr>totalItems := Some r\<rparr>)" by simp
      then have "recalcPagnParams (s\<lparr>totalItems := Some r\<rparr>) = (False, s\<lparr>totalItems := Some r\<rparr>)"
        by (rule recalc_incomplete)
      then show ?thesis using e by (simp add: get_totalPages_def)
    qed
  qed (simp_all add: set_totalItems_def)
next
  assume h: "\<not> complete (set_itemsPerPage v s)"
  show "get_totalPages (set_itemsPerPage v s) = get_totalPages s"
  proof (cases v)
    case (JNum r)
    show ?thesis
    proof (cases "itemsPerPage s = Some r \<or> \<not> subscr s")
      case True
      then show ?thesis using JNum by (auto simp: set_itemsPerPage_def get_totalPages_def)
    next
      case False
      then have e: "set_itemsPerPage v s = snd (recalcPagnParams (s\<lparr>itemsPerPage := Some r\<rparr>))"
        using JNum by (simp add: set_itemsPerPage_def)
      with h have "\<not> complete (s\<lparr>itemsPerPage := Some r\<rparr>)" by simp
      then have "recalcPagnParams (s\<lparr>itemsPerPage := Some r\<rparr>) = (False, s\<lparr>itemsPerPage := Some r\<rparr>)"
        by (rule recalc_incomplete)
      then show ?thesis using e by (simp add: get_totalPages_def)
    qed
  qed (simp_all add: set_itemsPerPage_def)
qed

theorem incomplete_inputs_keep_totalPages_witness:
  "\<not> complete (construct JUndefined (JNum 50))
   \<and> get_totalPages (construct JUndefined (JNum 50)) = JNull
   \<and> \<not> complete (set_totalItems (JNum 0) (construct (JNum 500) (JNum 50)))
   \<and> get_totalPages (set_totalItems (JNum 0) (construct (JNum 500) (JNum 50)))
       = get_totalPages (construct (JNum 500) (JNum 50))
   \<and> \<not> complete (set_itemsPerPage (JNum (- 1)) (construct (JNum 500) (JNum 50)))
   \<and> get_totalPages (set_itemsPerPage (JNum (- 1)) (construct (JNum 500) (JNum 50)))
       = get_totalPages (construct (JNum 500) (JNum 50))"
proof -
  have a: "\<not> complete (construct JUndefined (JNum 50))" by code_simp
  have b: "\<not> complete (set_totalItems (JNum 0) (construct (JNum 500) (JNum 50)))" by code_simp
  have c: "\<not> complete (set_itemsPerPage (JNum (- 1)) (construct (JNum 500) (JNum 50)))" by code_simp
  have "get_totalPages (construct JUndefined (JNum 50)) = JNull"
    using incomplete_inputs_keep_totalPages [THEN conjunct1] a by blast
  moreover have "get_totalPages (set_totalItems (JNum 0) (construct (JNum 500) (JNum 50)))
       = get_totalPages (construct (JNum 500) (JNum 50))"
    using incomplete_inputs_keep_totalPages [THEN conjunct2, THEN conjunct1] b by blast
  moreover have "get_totalPages (set_itemsPerPage (JNum (- 1)) (construct (JNum 500) (JNum 50)))
       = get_totalPages (construct (JNum 500) (JNum 50))"
    using incomplete_inputs_keep_totalPages [THEN conjunct2, THEN conjunct2] c by blast
  ultimately show ?thesis using a b c by blast
qed

section \<open>Fractional pages\<close>




end
